theory Spec2Isabelle
  imports Main
begin

section \<open>The DSE broker sync hook\<close>

text \<open>
  Source: \<^verbatim>\<open>apps/frontend/src/features/wealthfolio-connect/hooks/use-sync-dse-broker-data.ts\<close>.

  \<^verbatim>\<open>
  export function useSyncDseBrokerData() {
    return useMutation({
      mutationFn: syncDseBrokerData,
      onSuccess: () => {
        toast.loading("Syncing DSE broker data...", { id: "dse-broker-sync-start" });
      },
      onError: (error) => {
        toast.error(
          `Failed to start DSE sync: ${error instanceof Error ? error.message : "Unknown error"}`,
        );
      },
    });
  }
  \<close>
\<close>

subsection \<open>Values a rejected promise may carry\<close>

text \<open>
  A promise may be rejected with any JavaScript value. \<open>JError m\<close> is an object that has
  \<^verbatim>\<open>Error.prototype\<close> on its prototype chain, with \<^verbatim>\<open>message: string\<close> as TypeScript
  declares it for \<^verbatim>\<open>Error\<close>; \<open>JObject fields\<close> is an object that has not, with its own
  properties in order (a property is looked up by its first binding).
\<close>

datatype js_value =
    JUndefined
  | JNull
  | JBoolean bool
  | JNumber int
  | JString string
  | JError string
  | JObject "(string \<times> js_value) list"

text \<open>\<^verbatim>\<open>error instanceof Error\<close>: false for every primitive and for plain objects.\<close>

fun instanceof_Error :: "js_value \<Rightarrow> bool" where
  "instanceof_Error (JError m) = True"
| "instanceof_Error JUndefined = False"
| "instanceof_Error JNull = False"
| "instanceof_Error (JBoolean b) = False"
| "instanceof_Error (JNumber n) = False"
| "instanceof_Error (JString s) = False"
| "instanceof_Error (JObject fields) = False"

text \<open>
  The textual \<^verbatim>\<open>message\<close> field a value carries, if it carries one: the message of an
  \<^verbatim>\<open>Error\<close>, or the own property \<^verbatim>\<open>message\<close> of a plain object when that is a string.
  Primitives (a string, a number, a boolean, \<^verbatim>\<open>undefined\<close>, \<^verbatim>\<open>null\<close>) carry none.
\<close>

fun message_field :: "js_value \<Rightarrow> string option" where
  "message_field (JError m) = Some m"
| "message_field (JObject fields) =
     (case map_of fields ''message'' of
        Some (JString s) \<Rightarrow> Some s
      | _ \<Rightarrow> None)"
| "message_field JUndefined = None"
| "message_field JNull = None"
| "message_field (JBoolean b) = None"
| "message_field (JNumber n) = None"
| "message_field (JString s) = None"

subsection \<open>Toast calls\<close>

text \<open>
  Modelled from the spec: the toast module (\<^verbatim>\<open>@wealthfolio/ui/components/ui/use-toast\<close>) is
  not part of the source at hand. The spec gives its primitives as
  \<^verbatim>\<open>notify_loading(text, key)\<close> and \<^verbatim>\<open>notify_error(text)\<close>, fire-and-forget, and speaks of
  an external subsystem dismissing a keyed notification later. A call records the text and
  the \<^verbatim>\<open>id\<close> option as the caller passes them (\<open>None\<close>: no options object, or none with
  an \<^verbatim>\<open>id\<close>).
\<close>

datatype toast_call =
    ToastLoading string "string option"
  | ToastError string "string option"
  | ToastDismiss string

fun toast_id :: "toast_call \<Rightarrow> string option" where
  "toast_id (ToastLoading text key) = key"
| "toast_id (ToastError text key) = key"
| "toast_id (ToastDismiss key) = Some key"

fun is_loading :: "toast_call \<Rightarrow> bool" where
  "is_loading (ToastLoading text key) = True"
| "is_loading (ToastError text key) = False"
| "is_loading (ToastDismiss key) = False"

fun is_error :: "toast_call \<Rightarrow> bool" where
  "is_error (ToastError text key) = True"
| "is_error (ToastLoading text key) = False"
| "is_error (ToastDismiss key) = False"

fun is_dismiss :: "toast_call \<Rightarrow> bool" where
  "is_dismiss (ToastDismiss key) = True"
| "is_dismiss (ToastLoading text key) = False"
| "is_dismiss (ToastError text key) = False"

subsection \<open>The two callbacks\<close>

text \<open>
  A callback returns nothing; what it does is the toast calls it makes, in order.
\<close>

definition onSuccess :: "toast_call list" where
  "onSuccess = [ToastLoading ''Syncing DSE broker data...'' (Some ''dse-broker-sync-start'')]"

text \<open>
  The template literal of \<^verbatim>\<open>onError\<close>. \<^verbatim>\<open>error.message\<close> is read only under the
  \<^verbatim>\<open>instanceof\<close> guard, where \<open>message_field\<close> is \<open>Some\<close>.
\<close>

definition error_text :: "js_value \<Rightarrow> string" where
  "error_text error =
     ''Failed to start DSE sync: '' @
       (if instanceof_Error error then the (message_field error) else ''Unknown error'')"

definition onError :: "js_value \<Rightarrow> toast_call list" where
  "onError error = [ToastError (error_text error) None]"

text \<open>
  The extraction policy in the words of the spec, for comparison with \<open>error_text\<close>: "if the
  failure value carries a textual message field, use it; otherwise use the literal text
  Unknown error".
\<close>

definition spec_error_text :: "js_value \<Rightarrow> string" where
  "spec_error_text error =
     ''Failed to start DSE sync: '' @
       (case message_field error of Some m \<Rightarrow> m | None \<Rightarrow> ''Unknown error'')"

subsection \<open>The hook\<close>

text \<open>
  The options object handed to \<^verbatim>\<open>useMutation\<close>. \<^verbatim>\<open>mutationFn\<close> is the service call
  \<^verbatim>\<open>syncDseBrokerData\<close> of \<^verbatim>\<open>../services/broker-service\<close>; what it does is the
  environment's choice and enters below as the outcome of a settle event.
\<close>

record mutation_options =
  opt_onSuccess :: "toast_call list"
  opt_onError :: "js_value \<Rightarrow> toast_call list"

definition useSyncDseBrokerData :: mutation_options where
  "useSyncDseBrokerData = \<lparr>opt_onSuccess = onSuccess, opt_onError = onError\<rparr>"

subsection \<open>The mutation primitive\<close>

text \<open>
  Modelled from the spec: \<^verbatim>\<open>useMutation\<close> of \<^verbatim>\<open>@tanstack/react-query\<close> is a library and
  not part of the source at hand. The spec gives its state machine as
  "idle, pending (call issued), then succeeded or failed, with the notification emitted; no
  retry", says that the outcome "is delivered via callback at a later point on the same
  event loop", and that "each invocation independently issues its own call and its own
  notification".

  An invocation of the trigger is numbered by the count of invocations before it. The promise
  of the service call settles once, resolved (\<open>Accepted\<close>) or rejected with a value
  (\<open>Failed\<close>), and the matching callback of the options runs then.
\<close>

datatype outcome = Accepted | Failed js_value

datatype event = Mutate | Settle nat outcome

record mutation_state =
  invoked :: nat
  sync_calls :: nat
  in_flight :: "nat list"
  emitted :: "(nat \<times> toast_call) list"

definition init_state :: mutation_state where
  "init_state = \<lparr>invoked = 0, sync_calls = 0, in_flight = [], emitted = []\<rparr>"

fun settle :: "mutation_options \<Rightarrow> outcome \<Rightarrow> toast_call list" where
  "settle opts Accepted = opt_onSuccess opts"
| "settle opts (Failed error) = opt_onError opts error"

text \<open>\<open>None\<close>: the event cannot happen in this state (no such invocation is in flight).\<close>

fun step :: "mutation_options \<Rightarrow> mutation_state \<Rightarrow> event \<Rightarrow> mutation_state option" where
  "step opts s Mutate =
     Some (s\<lparr>invoked := Suc (invoked s),
             sync_calls := Suc (sync_calls s),
             in_flight := in_flight s @ [invoked s]\<rparr>)"
| "step opts s (Settle i out) =
     (if i \<in> set (in_flight s)
      then Some (s\<lparr>in_flight := removeAll i (in_flight s),
                   emitted := emitted s @ map (Pair i) (settle opts out)\<rparr>)
      else None)"

fun run :: "mutation_options \<Rightarrow> mutation_state \<Rightarrow> event list \<Rightarrow> mutation_state option" where
  "run opts s [] = Some s"
| "run opts s (ev # evs) =
     (case step opts s ev of
        None \<Rightarrow> None
      | Some s' \<Rightarrow> run opts s' evs)"

text \<open>The toast calls made for invocation \<open>i\<close>, and the toast calls an event makes.\<close>

definition notifications_of :: "nat \<Rightarrow> mutation_state \<Rightarrow> toast_call list" where
  "notifications_of i s = map snd (filter (\<lambda>p. fst p = i) (emitted s))"

fun calls_of_event :: "mutation_options \<Rightarrow> event \<Rightarrow> (nat \<times> toast_call) list" where
  "calls_of_event opts Mutate = []"
| "calls_of_event opts (Settle i out) = map (Pair i) (settle opts out)"

fun is_mutate :: "event \<Rightarrow> bool" where
  "is_mutate Mutate = True"
| "is_mutate (Settle i out) = False"

fun is_accepted :: "event \<Rightarrow> bool" where
  "is_accepted (Settle i Accepted) = True"
| "is_accepted (Settle i (Failed error)) = False"
| "is_accepted Mutate = False"

subsection \<open>The notification registry\<close>

text \<open>
  Modelled from the spec: the registry behind the toast module is not part of the source at
  hand. The spec describes "a process-wide notification registry keyed by identifier where a
  later write with the same key updates or supersedes the prior visible entry", with
  "update-or-insert semantics", and a notification as a message "with a severity and optional
  stable identifier for later replacement". A notification without a key is an entry of its
  own.
\<close>

datatype severity = Loading | Error

datatype notification =
  Notification (n_key: "string option") (n_severity: severity) (n_text: string)

fun upsert :: "string \<Rightarrow> notification \<Rightarrow> notification list \<Rightarrow> notification list" where
  "upsert k n [] = [n]"
| "upsert k n (m # ms) = (if n_key m = Some k then n # ms else m # upsert k n ms)"

fun notify :: "severity \<Rightarrow> string \<Rightarrow> string option \<Rightarrow> notification list \<Rightarrow> notification list" where
  "notify sev text None reg = reg @ [Notification None sev text]"
| "notify sev text (Some k) reg = upsert k (Notification (Some k) sev text) reg"

fun apply_toast :: "notification list \<Rightarrow> toast_call \<Rightarrow> notification list" where
  "apply_toast reg (ToastLoading text key) = notify Loading text key reg"
| "apply_toast reg (ToastError text key) = notify Error text key reg"
| "apply_toast reg (ToastDismiss k) = filter (\<lambda>n. n_key n \<noteq> Some k) reg"

definition registry_after :: "notification list \<Rightarrow> toast_call list \<Rightarrow> notification list" where
  "registry_after reg calls = foldl apply_toast reg calls"

definition keyed :: "string \<Rightarrow> notification list \<Rightarrow> notification option" where
  "keyed k reg = find (\<lambda>n. n_key n = Some k) reg"

subsection \<open>Reachable states\<close>

text \<open>
  What holds of every state the component reaches: the invocations in flight are pairwise
  different and were all issued, every toast call belongs to an issued invocation that is no
  longer in flight, and each invocation issued one service call.
\<close>

definition wf_state :: "mutation_state \<Rightarrow> bool" where
  "wf_state s \<longleftrightarrow>
     distinct (in_flight s) \<and>
     set (in_flight s) \<subseteq> {..<invoked s} \<and>
     fst ` set (emitted s) \<subseteq> {..<invoked s} - set (in_flight s) \<and>
     sync_calls s = invoked s"

section \<open>Runs of the component\<close>

subsection \<open>The invariant\<close>

lemma wf_init: "wf_state init_state"
  by (simp add: wf_state_def init_state_def)

lemma wf_mutate:
  assumes "wf_state s" and "step opts s Mutate = Some s'"
  shows "wf_state s'"
proof -
  from assms(2) have s': "s' = s\<lparr>invoked := Suc (invoked s), sync_calls := Suc (sync_calls s),
             in_flight := in_flight s @ [invoked s]\<rparr>" by simp
  from assms(1) have d: "distinct (in_flight s)" and f: "set (in_flight s) \<subseteq> {..<invoked s}"
    and e: "fst ` set (emitted s) \<subseteq> {..<invoked s} - set (in_flight s)"
    and c: "sync_calls s = invoked s"
    by (simp_all add: wf_state_def)
  from f have fresh: "invoked s \<notin> set (in_flight s)" by auto
  from e have e': "fst ` set (emitted s) \<subseteq> {..<Suc (invoked s)} - (set (in_flight s) \<union> {invoked s})"
    by auto
  from f have f': "set (in_flight s) \<union> {invoked s} \<subseteq> {..<Suc (invoked s)}"
    by auto
  show ?thesis
    unfolding wf_state_def s' using d fresh e' f' c by simp
qed

lemma wf_settle:
  assumes "wf_state s" and "step opts s (Settle i out) = Some s'"
  shows "wf_state s'"
proof -
  from assms(2) have mem: "i \<in> set (in_flight s)"
    and s': "s' = s\<lparr>in_flight := removeAll i (in_flight s),
                   emitted := emitted s @ map (Pair i) (settle opts out)\<rparr>"
    by (simp_all split: if_splits)
  from assms(1) have d: "distinct (in_flight s)" and f: "set (in_flight s) \<subseteq> {..<invoked s}"
    and e: "fst ` set (emitted s) \<subseteq> {..<invoked s} - set (in_flight s)"
    and c: "sync_calls s = invoked s"
    by (simp_all add: wf_state_def)
  from f mem have i: "i < invoked s" by auto
  have "fst ` set (map (Pair i) (settle opts out)) \<subseteq> {i}" by auto
  with e i have e': "fst ` (set (emitted s) \<union> set (map (Pair i) (settle opts out)))
      \<subseteq> {..<invoked s} - (set (in_flight s) - {i})"
    unfolding image_Un by blast
  from f have f': "set (in_flight s) - {i} \<subseteq> {..<invoked s}" by auto
  show ?thesis
    unfolding wf_state_def s' using d e' f' c by (simp add: distinct_removeAll)
qed

lemma wf_step:
  assumes "wf_state s" and "step opts s ev = Some s'"
  shows "wf_state s'"
  using assms by (cases ev) (auto dest: wf_mutate wf_settle simp del: step.simps)

lemma wf_run: "wf_state s \<Longrightarrow> run opts s evs = Some s' \<Longrightarrow> wf_state s'"
proof (induction evs arbitrary: s)
  case Nil
  then show ?case by simp
next
  case (Cons ev evs)
  then show ?case
    by (auto split: option.splits dest: wf_step)
qed

lemma emitted_run:
  "run opts s evs = Some s' \<Longrightarrow> emitted s' = emitted s @ concat (map (calls_of_event opts) evs)"
proof (induction evs arbitrary: s)
  case Nil
  then show ?case by simp
next
  case (Cons ev evs)
  then obtain s1 where s1: "step opts s ev = Some s1" and r: "run opts s1 evs = Some s'"
    by (auto split: option.splits)
  from s1 have "emitted s1 = emitted s @ calls_of_event opts ev"
    by (cases ev) (auto split: if_splits)
  with Cons.IH [OF r] show ?case by simp
qed

lemma counts_run:
  "run opts s evs = Some s' \<Longrightarrow>
     invoked s' = invoked s + length (filter is_mutate evs) \<and>
     sync_calls s' = sync_calls s + length (filter is_mutate evs)"
proof (induction evs arbitrary: s)
  case Nil
  then show ?case by simp
next
  case (Cons ev evs)
  then obtain s1 where s1: "step opts s ev = Some s1" and r: "run opts s1 evs = Some s'"
    by (auto split: option.splits)
  from s1 have "invoked s1 = invoked s + (if is_mutate ev then 1 else 0) \<and>
      sync_calls s1 = sync_calls s + (if is_mutate ev then 1 else 0)"
    by (cases ev) (auto split: if_splits)
  with Cons.IH [OF r] show ?case by simp
qed

lemma unsettled_no_notifications:
  "wf_state s \<Longrightarrow> i \<in> set (in_flight s) \<or> invoked s \<le> i \<Longrightarrow> notifications_of i s = []"
  by (auto simp: wf_state_def notifications_of_def filter_empty_conv)

lemma settled_step:
  assumes "wf_state s" "i < invoked s" "i \<notin> set (in_flight s)" "step opts s ev = Some s'"
  shows "notifications_of i s' = notifications_of i s \<and> i < invoked s' \<and> i \<notin> set (in_flight s')"
proof (cases ev)
  case Mutate
  with assms show ?thesis by (auto simp: notifications_of_def)
next
  case (Settle j out)
  with assms have "j \<noteq> i" by (auto split: if_splits)
  with Settle assms show ?thesis
    by (auto simp: notifications_of_def filter_empty_conv split: if_splits)
qed

lemma settled_run:
  "wf_state s \<Longrightarrow> i < invoked s \<Longrightarrow> i \<notin> set (in_flight s) \<Longrightarrow> run opts s evs = Some s' \<Longrightarrow>
     notifications_of i s' = notifications_of i s \<and> i < invoked s' \<and> i \<notin> set (in_flight s')"
proof (induction evs arbitrary: s)
  case Nil
  then show ?case by simp
next
  case (Cons ev evs)
  then obtain s1 where s1: "step opts s ev = Some s1" and r: "run opts s1 evs = Some s'"
    by (auto split: option.splits)
  from settled_step [OF Cons.prems(1-3) s1] wf_step [OF Cons.prems(1) s1] Cons.IH [OF _ _ _ r]
  show ?case by simp
qed

lemma settle_step_notifications:
  assumes "wf_state s" "step opts s (Settle i out) = Some s'"
  shows "notifications_of i s' = settle opts out \<and> i < invoked s' \<and> i \<notin> set (in_flight s')"
proof -
  from assms(2) have mem: "i \<in> set (in_flight s)" by (auto split: if_splits)
  with assms(1) have "notifications_of i s = []" by (simp add: unsettled_no_notifications)
  moreover have "map snd (filter (\<lambda>p. fst p = i) (map (Pair i) cs)) = cs" for cs :: "toast_call list"
    by (induction cs) auto
  ultimately show ?thesis using assms mem
    by (auto simp: notifications_of_def wf_state_def split: if_splits)
qed

lemma settle_in_run:
  "wf_state s \<Longrightarrow> run opts s evs = Some s' \<Longrightarrow> Settle i out \<in> set evs \<Longrightarrow>
     notifications_of i s' = settle opts out \<and> i < invoked s' \<and> i \<notin> set (in_flight s')"
proof (induction evs arbitrary: s)
  case Nil
  then show ?case by simp
next
  case (Cons ev evs)
  then obtain s1 where s1: "step opts s ev = Some s1" and r: "run opts s1 evs = Some s'"
    by (auto split: option.splits)
  have wf1: "wf_state s1" by (rule wf_step [OF Cons.prems(1) s1])
  show ?case
  proof (cases "Settle i out \<in> set evs")
    case True
    then show ?thesis by (rule Cons.IH [OF wf1 r])
  next
    case False
    with Cons.prems(3) have ev: "ev = Settle i out" by simp
    from settle_step_notifications [OF Cons.prems(1) s1 [unfolded ev]]
      settled_run [OF wf1 _ _ r, of i]
    show ?thesis by simp
  qed
qed

subsection \<open>One notification for each settled invocation\<close>

lemma settle_hook_length: "length (settle useSyncDseBrokerData out) = 1"
  by (cases out) (simp_all add: useSyncDseBrokerData_def onSuccess_def onError_def)

lemma completed_has_settle:
  "run opts s0 evs = Some s \<Longrightarrow> i < invoked s \<Longrightarrow> i \<notin> set (in_flight s) \<Longrightarrow>
     (i < invoked s0 \<and> i \<notin> set (in_flight s0)) \<or> (\<exists>out. Settle i out \<in> set evs)"
proof (induction evs arbitrary: s0)
  case Nil
  then show ?case by simp
next
  case (Cons ev evs)
  then obtain s1 where s1: "step opts s0 ev = Some s1" and r: "run opts s1 evs = Some s"
    by (auto split: option.splits)
  from Cons.IH [OF r Cons.prems(2,3)]
  consider "i < invoked s1 \<and> i \<notin> set (in_flight s1)" | "\<exists>out. Settle i out \<in> set evs"
    by blast
  then show ?case
  proof cases
    case 1
    show ?thesis
    proof (cases ev)
      case Mutate
      with s1 1 show ?thesis by (auto simp: less_Suc_eq)
    next
      case (Settle j out)
      with s1 1 show ?thesis by (cases "j = i") (auto split: if_splits)
    qed
  next
    case 2
    then show ?thesis by auto
  qed
qed

lemma balance_step:
  assumes "wf_state s" and "step useSyncDseBrokerData s ev = Some s'"
    and "length (emitted s) + length (in_flight s) = invoked s"
  shows "length (emitted s') + length (in_flight s') = invoked s'"
proof (cases ev)
  case Mutate
  with assms show ?thesis by auto
next
  case (Settle i out)
  with assms(2) have mem: "i \<in> set (in_flight s)" by (auto split: if_splits)
  from assms(1) have "distinct (in_flight s)" by (simp add: wf_state_def)
  then have "removeAll i (in_flight s) = remove1 i (in_flight s)"
    by (simp add: distinct_remove1_removeAll)
  with mem have "length (removeAll i (in_flight s)) = length (in_flight s) - 1"
    by (simp add: length_remove1)
  moreover from mem obtain n where "length (in_flight s) = Suc n"
    by (cases "in_flight s") auto
  moreover from Settle assms(2) mem
  have "s' = s\<lparr>in_flight := removeAll i (in_flight s),
      emitted := emitted s @ map (Pair i) (settle useSyncDseBrokerData out)\<rparr>"
    by simp
  ultimately show ?thesis using assms(3) settle_hook_length [of out]
    by simp
qed

lemma balance_run:
  "wf_state s \<Longrightarrow> run useSyncDseBrokerData s evs = Some s' \<Longrightarrow>
     length (emitted s) + length (in_flight s) = invoked s \<Longrightarrow>
     length (emitted s') + length (in_flight s') = invoked s'"
proof (induction evs arbitrary: s)
  case Nil
  then show ?case by simp
next
  case (Cons ev evs)
  then obtain s1 where s1: "step useSyncDseBrokerData s ev = Some s1"
    and r: "run useSyncDseBrokerData s1 evs = Some s'"
    by (auto split: option.splits)
  from Cons.IH [OF wf_step [OF Cons.prems(1) s1] r balance_step [OF Cons.prems(1) s1 Cons.prems(3)]]
  show ?case .
qed

lemma at_most_one:
  assumes "run useSyncDseBrokerData init_state evs = Some s"
  shows "length (notifications_of i s) \<le> 1"
proof (cases "i < invoked s \<and> i \<notin> set (in_flight s)")
  case True
  with completed_has_settle [OF assms, of i] obtain out where "Settle i out \<in> set evs"
    by (auto simp: init_state_def)
  from settle_in_run [OF wf_init assms this] settle_hook_length [of out]
  show ?thesis by simp
next
  case False
  then have "i \<in> set (in_flight s) \<or> invoked s \<le> i" by auto
  with unsettled_no_notifications [OF wf_run [OF wf_init assms]] show ?thesis by simp
qed

lemma run_append:
  "run opts s (xs @ ys) = Some s' \<Longrightarrow> \<exists>s1. run opts s xs = Some s1 \<and> run opts s1 ys = Some s'"
  by (induction xs arbitrary: s) (auto split: option.splits)

lemma emitted_from_settle:
  assumes "run opts init_state evs = Some s" and "(i, c) \<in> set (emitted s)"
  shows "\<exists>out. Settle i out \<in> set evs \<and> c \<in> set (settle opts out)"
proof -
  from emitted_run [OF assms(1)] assms(2)
  obtain ev where ev: "ev \<in> set evs" and c: "(i, c) \<in> set (calls_of_event opts ev)"
    by (auto simp: init_state_def)
  show ?thesis
  proof (cases ev)
    case Mutate
    with c show ?thesis by simp
  next
    case (Settle j out)
    with c have "j = i" and "c \<in> set (settle opts out)" by auto
    with ev Settle show ?thesis by blast
  qed
qed


subsection \<open>The registry under the calls of the hook\<close>

lemma keyed_append_unkeyed:
  "keyed k (reg @ [Notification None sev text]) = keyed k reg"
  by (induction reg) (simp_all add: keyed_def)

lemma keyed_upsert:
  "n_key n = Some k \<Longrightarrow> keyed k (upsert k n reg) = Some n"
  by (induction reg) (simp_all add: keyed_def)

lemma upsert_twice:
  "n_key n = Some k \<Longrightarrow> upsert k n (upsert k n reg) = upsert k n reg"
  by (induction reg) simp_all

lemma registry_after_append:
  "registry_after reg (cs @ ds) = registry_after (registry_after reg cs) ds"
  by (simp add: registry_after_def)

lemma registry_after_onError:
  "registry_after reg (onError error) = reg @ [Notification None Error (error_text error)]"
  by (simp add: registry_after_def onError_def)

lemma registry_after_onSuccess:
  "keyed ''dse-broker-sync-start'' (registry_after reg onSuccess) =
     Some (Notification (Some ''dse-broker-sync-start'') Loading ''Syncing DSE broker data...'')"
  by (simp add: registry_after_def onSuccess_def keyed_upsert)

lemma keyed_after_event:
  "keyed ''dse-broker-sync-start''
     (registry_after reg (map snd (calls_of_event useSyncDseBrokerData ev))) =
     (if is_accepted ev
      then Some (Notification (Some ''dse-broker-sync-start'') Loading ''Syncing DSE broker data...'')
      else keyed ''dse-broker-sync-start'' reg)"
proof (cases ev rule: is_accepted.cases)
  case (1 i)
  then show ?thesis
    by (simp add: useSyncDseBrokerData_def comp_def registry_after_onSuccess)
next
  case (2 i error)
  then show ?thesis
    by (simp add: useSyncDseBrokerData_def comp_def registry_after_onError keyed_append_unkeyed)
next
  case 3
  then show ?thesis by (simp add: registry_after_def)
qed

lemma keyed_after_events:
  "keyed ''dse-broker-sync-start''
     (registry_after reg (concat (map (\<lambda>ev. map snd (calls_of_event useSyncDseBrokerData ev)) evs))) =
     (if list_ex is_accepted evs
      then Some (Notification (Some ''dse-broker-sync-start'') Loading ''Syncing DSE broker data...'')
      else keyed ''dse-broker-sync-start'' reg)"
  (is "keyed ?K (registry_after reg (concat (map ?f evs))) = (if _ then ?L else _)")
proof (induction evs arbitrary: reg)
  case Nil
  then show ?case by (simp add: registry_after_def)
next
  case (Cons ev evs)
  have "keyed ?K (registry_after reg (concat (map ?f (ev # evs)))) =
      keyed ?K (registry_after (registry_after reg (?f ev)) (concat (map ?f evs)))"
    by (simp only: list.map concat.simps registry_after_append)
  also have "\<dots> = (if list_ex is_accepted evs then ?L else keyed ?K (registry_after reg (?f ev)))"
    by (rule Cons.IH)
  also have "\<dots> = (if list_ex is_accepted (ev # evs) then ?L else keyed ?K reg)"
    by (cases "is_accepted ev")
      (simp_all only: keyed_after_event list_ex_Cons_iff if_True if_False if_cancel simp_thms)
  finally show ?case .
qed

lemma no_dismiss_event:
  "\<not> list_ex is_dismiss (map snd (calls_of_event useSyncDseBrokerData ev))"
  by (cases ev rule: is_accepted.cases)
    (simp_all add: useSyncDseBrokerData_def onSuccess_def onError_def)

lemma no_dismiss_events:
  "\<not> list_ex is_dismiss (concat (map (\<lambda>ev. map snd (calls_of_event useSyncDseBrokerData ev)) evs))"
proof (induction evs)
  case Nil
  then show ?case by simp
next
  case (Cons ev evs)
  with no_dismiss_event [of ev] show ?case by (simp add: list_ex_append)
qed

lemma emitted_calls_run:
  assumes "run opts init_state evs = Some s"
  shows "map snd (emitted s) = concat (map (\<lambda>ev. map snd (calls_of_event opts ev)) evs)"
  using emitted_run [OF assms] by (simp add: init_state_def map_concat comp_def)

lemma registry_after_errors:
  "registry_after reg (concat (map onError errors)) =
     reg @ map (\<lambda>e. Notification None Error (error_text e)) errors"
proof (induction errors arbitrary: reg)
  case Nil
  then show ?case by (simp add: registry_after_def)
next
  case (Cons e errors)
  then show ?case
    by (simp add: registry_after_append registry_after_onError)
qed

lemma keyed_call_is_loading:
  assumes "c \<in> set (settle useSyncDseBrokerData out)"
    and "toast_id c = Some ''dse-broker-sync-start''"
  shows "out = Accepted \<and>
    c = ToastLoading ''Syncing DSE broker data...'' (Some ''dse-broker-sync-start'')"
  using assms
  by (cases out) (auto simp: useSyncDseBrokerData_def onSuccess_def onError_def)

section \<open>The claims\<close>

subsection \<open>The text of the error notification\<close>

text \<open>
  Claim C1, as amended. The failure callback of the hook makes exactly one toast call, an
  error toast without options, whose text is the prefix "Failed to start DSE sync: " followed
  by the extracted message. When the failure value is an instance of \<^verbatim>\<open>Error\<close>, its message
  is used: an \<^verbatim>\<open>Error\<close> with message "network down" gives exactly
  "Failed to start DSE sync: network down".
\<close>

theorem C1_error_notification_text:
  "(\<exists>t. opt_onError useSyncDseBrokerData error =
          [ToastError (''Failed to start DSE sync: '' @ t) None]) \<and>
   opt_onError useSyncDseBrokerData (JError m) =
     [ToastError (''Failed to start DSE sync: '' @ m) None] \<and>
   opt_onError useSyncDseBrokerData (JError ''network down'') =
     [ToastError ''Failed to start DSE sync: network down'' None]"
  by (simp add: useSyncDseBrokerData_def onError_def error_text_def)

text \<open>
  Claim C1, as written, takes the message of every failure value that carries a textual
  message field. The plain object \<^verbatim>\<open>{ message: "network down" }\<close> carries one and is not an
  instance of \<^verbatim>\<open>Error\<close>: the text is "Failed to start DSE sync: Unknown error", not the
  text of the extraction policy as the spec words it.
\<close>

theorem C1_message_field_counterexample:
  "message_field (JObject [(''message'', JString ''network down'')]) = Some ''network down'' \<and>
   opt_onError useSyncDseBrokerData (JObject [(''message'', JString ''network down'')]) =
     [ToastError ''Failed to start DSE sync: Unknown error'' None] \<and>
   opt_onError useSyncDseBrokerData (JObject [(''message'', JString ''network down'')]) \<noteq>
     [ToastError (spec_error_text (JObject [(''message'', JString ''network down'')])) None]"
  by (simp add: useSyncDseBrokerData_def onError_def error_text_def spec_error_text_def)

text \<open>
  Claim C4. For a failure value that carries no textual message field, a plain string or
  \<^verbatim>\<open>undefined\<close> for example, the one error toast has exactly the text
  "Failed to start DSE sync: Unknown error".
\<close>

theorem C4_no_message_unknown_error:
  assumes "message_field error = None"
  shows "opt_onError useSyncDseBrokerData error =
     [ToastError ''Failed to start DSE sync: Unknown error'' None]"
proof -
  from assms have "\<not> instanceof_Error error" by (cases error) simp_all
  then show ?thesis
    by (simp add: useSyncDseBrokerData_def onError_def error_text_def)
qed

theorem C4_no_message_unknown_error_witness:
  "message_field (JString ''boom'') = None \<and>
   opt_onError useSyncDseBrokerData (JString ''boom'') =
     [ToastError ''Failed to start DSE sync: Unknown error'' None] \<and>
   message_field JUndefined = None \<and>
   opt_onError useSyncDseBrokerData JUndefined =
     [ToastError ''Failed to start DSE sync: Unknown error'' None]"
proof -
  have a: "message_field (JString ''boom'') = None" by simp
  have b: "message_field JUndefined = None" by simp
  from C4_no_message_unknown_error [OF a] C4_no_message_unknown_error [OF b] a b
  show ?thesis by simp
qed

text \<open>
  Claim C5. The message of the failure value is used only for instances of \<^verbatim>\<open>Error\<close>.
  For every other failure value, also an object that carries a textual message field, the
  text is "Failed to start DSE sync: Unknown error"; it is not the prefix followed by that
  message (the two can only coincide when the message is itself the literal
  "Unknown error").
\<close>

theorem C5_message_only_of_Error_instances:
  assumes "\<not> instanceof_Error error"
  shows "opt_onError useSyncDseBrokerData error =
       [ToastError ''Failed to start DSE sync: Unknown error'' None] \<and>
     (\<forall>m. message_field error = Some m \<and> m \<noteq> ''Unknown error'' \<longrightarrow>
        opt_onError useSyncDseBrokerData error \<noteq>
          [ToastError (''Failed to start DSE sync: '' @ m) None])"
  using assms by (auto simp: useSyncDseBrokerData_def onError_def error_text_def)

theorem C5_message_only_of_Error_instances_witness:
  "\<not> instanceof_Error (JObject [(''message'', JString ''network down'')]) \<and>
   message_field (JObject [(''message'', JString ''network down'')]) = Some ''network down'' \<and>
   opt_onError useSyncDseBrokerData (JObject [(''message'', JString ''network down'')]) =
     [ToastError ''Failed to start DSE sync: Unknown error'' None] \<and>
   opt_onError useSyncDseBrokerData (JObject [(''message'', JString ''network down'')]) \<noteq>
     [ToastError (''Failed to start DSE sync: '' @ ''network down'') None]"
proof -
  have a: "\<not> instanceof_Error (JObject [(''message'', JString ''network down'')])" by simp
  have b: "message_field (JObject [(''message'', JString ''network down'')]) = Some ''network down''"
    by simp
  have c: "''network down'' \<noteq> ''Unknown error''" by simp
  from C5_message_only_of_Error_instances [OF a] a b c show ?thesis by blast
qed

subsection \<open>Notifications of an invocation\<close>

text \<open>
  Claim C2. In every run, an invocation whose service call is accepted has exactly one toast
  call: the loading toast with the text "Syncing DSE broker data..." under the key
  "dse-broker-sync-start". Being the only toast call of that invocation, it comes before
  any other of that invocation.
\<close>

theorem C2_loading_notification:
  assumes "run useSyncDseBrokerData init_state evs = Some s"
    and "Settle i Accepted \<in> set evs"
  shows "notifications_of i s =
     [ToastLoading ''Syncing DSE broker data...'' (Some ''dse-broker-sync-start'')]"
  using settle_in_run [OF wf_init assms]
  by (simp add: useSyncDseBrokerData_def onSuccess_def)

theorem C2_loading_notification_witness:
  "run useSyncDseBrokerData init_state [Mutate, Settle 0 Accepted] =
     Some \<lparr>invoked = 1, sync_calls = 1, in_flight = [],
       emitted = [(0, ToastLoading ''Syncing DSE broker data...'' (Some ''dse-broker-sync-start''))]\<rparr> \<and>
   Settle 0 Accepted \<in> set [Mutate, Settle 0 Accepted] \<and>
   notifications_of 0 \<lparr>invoked = 1, sync_calls = 1, in_flight = [],
       emitted = [(0, ToastLoading ''Syncing DSE broker data...'' (Some ''dse-broker-sync-start''))]\<rparr> =
     [ToastLoading ''Syncing DSE broker data...'' (Some ''dse-broker-sync-start'')]"
proof -
  have r: "run useSyncDseBrokerData init_state [Mutate, Settle 0 Accepted] =
     Some \<lparr>invoked = 1, sync_calls = 1, in_flight = [],
       emitted = [(0, ToastLoading ''Syncing DSE broker data...'' (Some ''dse-broker-sync-start''))]\<rparr>"
    by (simp add: init_state_def useSyncDseBrokerData_def onSuccess_def)
  have m: "Settle 0 Accepted \<in> set [Mutate, Settle 0 Accepted]" by simp
  from C2_loading_notification [OF r m] r m show ?thesis by simp
qed

text \<open>
  Claim C3. In every run, an invocation that has completed (issued, and no longer in flight)
  was settled by an outcome in the run and has exactly one toast call: the loading toast when
  the outcome is acceptance, the error toast when it is a failure; a toast call that is the one
  is not the other.
\<close>

theorem C3_exactly_one_notification:
  assumes "run useSyncDseBrokerData init_state evs = Some s"
    and "i < invoked s" and "i \<notin> set (in_flight s)"
  shows "\<exists>out c. Settle i out \<in> set evs \<and> notifications_of i s = [c] \<and>
     (case out of
        Accepted \<Rightarrow> c = ToastLoading ''Syncing DSE broker data...'' (Some ''dse-broker-sync-start'')
      | Failed error \<Rightarrow> c = ToastError (error_text error) None) \<and>
     is_loading c \<noteq> is_error c"
proof -
  from completed_has_settle [OF assms] obtain out where m: "Settle i out \<in> set evs"
    by (auto simp: init_state_def)
  from settle_in_run [OF wf_init assms(1) m]
  have n: "notifications_of i s = settle useSyncDseBrokerData out" by simp
  show ?thesis
  proof (cases out)
    case Accepted
    with m n show ?thesis
      by (intro exI [of _ out] exI [of _ "ToastLoading ''Syncing DSE broker data...'' (Some ''dse-broker-sync-start'')"])
        (simp add: useSyncDseBrokerData_def onSuccess_def)
  next
    case (Failed error)
    with m n show ?thesis
      by (intro exI [of _ out] exI [of _ "ToastError (error_text error) None"])
        (simp add: useSyncDseBrokerData_def onError_def)
  qed
qed

theorem C3_exactly_one_notification_witness:
  "run useSyncDseBrokerData init_state
     [Mutate, Mutate, Settle 1 (Failed (JString ''offline'')), Settle 0 Accepted] =
     Some \<lparr>invoked = 2, sync_calls = 2, in_flight = [],
       emitted = [(1, ToastError ''Failed to start DSE sync: Unknown error'' None),
                  (0, ToastLoading ''Syncing DSE broker data...'' (Some ''dse-broker-sync-start''))]\<rparr> \<and>
   (\<exists>out c. Settle 1 out \<in> set [Mutate, Mutate, Settle 1 (Failed (JString ''offline'')), Settle 0 Accepted] \<and>
      notifications_of 1 \<lparr>invoked = 2, sync_calls = 2, in_flight = [],
       emitted = [(1, ToastError ''Failed to start DSE sync: Unknown error'' None),
                  (0, ToastLoading ''Syncing DSE broker data...'' (Some ''dse-broker-sync-start''))]\<rparr> = [c] \<and>
      (case out of
        Accepted \<Rightarrow> c = ToastLoading ''Syncing DSE broker data...'' (Some ''dse-broker-sync-start'')
      | Failed error \<Rightarrow> c = ToastError (error_text error) None) \<and>
      is_loading c \<noteq> is_error c)"
proof -
  let ?s = "\<lparr>invoked = 2, sync_calls = 2, in_flight = [],
       emitted = [(1, ToastError ''Failed to start DSE sync: Unknown error'' None),
                  (0, ToastLoading ''Syncing DSE broker data...'' (Some ''dse-broker-sync-start''))]\<rparr>"
  have r: "run useSyncDseBrokerData init_state
     [Mutate, Mutate, Settle 1 (Failed (JString ''offline'')), Settle 0 Accepted] = Some ?s"
    by (simp add: init_state_def useSyncDseBrokerData_def onSuccess_def onError_def error_text_def)
  have a: "1 < invoked ?s" by simp
  have b: "1 \<notin> set (in_flight ?s)" by simp
  from C3_exactly_one_notification [OF r a b] r show ?thesis by simp
qed

text \<open>
  Claim C7. At every point of every execution (after every prefix \<open>pre\<close> of a run): as long
  as the trigger has not been invoked there is no toast call; an invocation not yet issued
  has none; no invocation has more than one; and there are no more toast calls than
  invocations.
\<close>

theorem C7_no_notification_without_invocation:
  assumes "run useSyncDseBrokerData init_state (pre @ post) = Some s"
  shows "\<exists>s1. run useSyncDseBrokerData init_state pre = Some s1 \<and>
     invoked s1 = length (filter is_mutate pre) \<and>
     (invoked s1 = 0 \<longrightarrow> emitted s1 = []) \<and>
     (\<forall>i. invoked s1 \<le> i \<longrightarrow> notifications_of i s1 = []) \<and>
     (\<forall>i. length (notifications_of i s1) \<le> 1) \<and>
     length (emitted s1) \<le> invoked s1"
proof -
  from run_append [OF assms] obtain s1
    where r: "run useSyncDseBrokerData init_state pre = Some s1" by blast
  have wf1: "wf_state s1" by (rule wf_run [OF wf_init r])
  from counts_run [OF r] have n: "invoked s1 = length (filter is_mutate pre)"
    by (simp add: init_state_def)
  from balance_run [OF wf_init r]
  have b: "length (emitted s1) + length (in_flight s1) = invoked s1"
    by (simp add: init_state_def)
  have late: "notifications_of i s1 = []" if "invoked s1 \<le> i" for i
    using unsettled_no_notifications [OF wf1, of i] that by simp
  have one: "length (notifications_of i s1) \<le> 1" for i
    by (rule at_most_one [OF r])
  from r n b late one show ?thesis by auto
qed

theorem C7_no_notification_without_invocation_witness:
  "run useSyncDseBrokerData init_state ([Mutate, Settle 0 Accepted] @ [Mutate]) =
     Some \<lparr>invoked = 2, sync_calls = 2, in_flight = [1],
       emitted = [(0, ToastLoading ''Syncing DSE broker data...'' (Some ''dse-broker-sync-start''))]\<rparr> \<and>
   (\<exists>s1. run useSyncDseBrokerData init_state [Mutate, Settle 0 Accepted] = Some s1 \<and>
     invoked s1 = length (filter is_mutate [Mutate, Settle 0 Accepted]) \<and>
     (invoked s1 = 0 \<longrightarrow> emitted s1 = []) \<and>
     (\<forall>i. invoked s1 \<le> i \<longrightarrow> notifications_of i s1 = []) \<and>
     (\<forall>i. length (notifications_of i s1) \<le> 1) \<and>
     length (emitted s1) \<le> invoked s1)"
proof -
  have r: "run useSyncDseBrokerData init_state ([Mutate, Settle 0 Accepted] @ [Mutate]) =
     Some \<lparr>invoked = 2, sync_calls = 2, in_flight = [1],
       emitted = [(0, ToastLoading ''Syncing DSE broker data...'' (Some ''dse-broker-sync-start''))]\<rparr>"
    by (simp add: init_state_def useSyncDseBrokerData_def onSuccess_def)
  from C7_no_notification_without_invocation [OF r] r show ?thesis by blast
qed



subsection \<open>The keyed notification\<close>

text \<open>
  Claim C9. In every run the hook makes no dismiss call; a toast call under the key
  "dse-broker-sync-start" is the loading toast of an accepted invocation and the only toast
  call of that invocation. Whatever the registry was before, after the calls of the run the
  entry under the key is the loading notification when some invocation was accepted, and is
  what it was otherwise.
\<close>

theorem C9_keyed_notification_frame:
  assumes "run useSyncDseBrokerData init_state evs = Some s"
  shows "\<not> list_ex is_dismiss (map snd (emitted s)) \<and>
     (\<forall>i c. (i, c) \<in> set (emitted s) \<and> toast_id c = Some ''dse-broker-sync-start'' \<longrightarrow>
        Settle i Accepted \<in> set evs \<and> notifications_of i s = [c] \<and>
        c = ToastLoading ''Syncing DSE broker data...'' (Some ''dse-broker-sync-start'')) \<and>
     keyed ''dse-broker-sync-start'' (registry_after reg (map snd (emitted s))) =
       (if list_ex is_accepted evs
        then Some (Notification (Some ''dse-broker-sync-start'') Loading ''Syncing DSE broker data...'')
        else keyed ''dse-broker-sync-start'' reg)"
proof -
  have calls: "map snd (emitted s) =
      concat (map (\<lambda>ev. map snd (calls_of_event useSyncDseBrokerData ev)) evs)"
    by (rule emitted_calls_run [OF assms])
  have a: "\<not> list_ex is_dismiss (map snd (emitted s))"
    unfolding calls by (rule no_dismiss_events)
  have b: "Settle i Accepted \<in> set evs \<and> notifications_of i s = [c] \<and>
        c = ToastLoading ''Syncing DSE broker data...'' (Some ''dse-broker-sync-start'')"
    if "(i, c) \<in> set (emitted s)" and "toast_id c = Some ''dse-broker-sync-start''" for i c
  proof -
    from emitted_from_settle [OF assms that(1)] obtain out
      where m: "Settle i out \<in> set evs" and c: "c \<in> set (settle useSyncDseBrokerData out)"
      by blast
    from keyed_call_is_loading [OF c that(2)]
    have out: "out = Accepted"
      and l: "c = ToastLoading ''Syncing DSE broker data...'' (Some ''dse-broker-sync-start'')"
      by simp_all
    from settle_in_run [OF wf_init assms m] out l
    have "notifications_of i s = [c]"
      by (simp add: useSyncDseBrokerData_def onSuccess_def)
    with m out l show ?thesis by simp
  qed
  have k: "keyed ''dse-broker-sync-start'' (registry_after reg (map snd (emitted s))) =
       (if list_ex is_accepted evs
        then Some (Notification (Some ''dse-broker-sync-start'') Loading ''Syncing DSE broker data...'')
        else keyed ''dse-broker-sync-start'' reg)"
    unfolding calls by (rule keyed_after_events)
  from a b k show ?thesis by blast
qed

theorem C9_keyed_notification_frame_witness:
  "run useSyncDseBrokerData init_state
     [Mutate, Mutate, Settle 0 Accepted, Settle 1 (Failed JUndefined)] =
     Some \<lparr>invoked = 2, sync_calls = 2, in_flight = [],
       emitted = [(0, ToastLoading ''Syncing DSE broker data...'' (Some ''dse-broker-sync-start'')),
                  (1, ToastError ''Failed to start DSE sync: Unknown error'' None)]\<rparr> \<and>
   keyed ''dse-broker-sync-start''
     (registry_after []
        [ToastLoading ''Syncing DSE broker data...'' (Some ''dse-broker-sync-start''),
         ToastError ''Failed to start DSE sync: Unknown error'' None]) =
     Some (Notification (Some ''dse-broker-sync-start'') Loading ''Syncing DSE broker data...'')"
proof -
  let ?s = "\<lparr>invoked = 2, sync_calls = 2, in_flight = [],
       emitted = [(0, ToastLoading ''Syncing DSE broker data...'' (Some ''dse-broker-sync-start'')),
                  (1, ToastError ''Failed to start DSE sync: Unknown error'' None)]\<rparr>"
  have r: "run useSyncDseBrokerData init_state
     [Mutate, Mutate, Settle 0 Accepted, Settle 1 (Failed JUndefined)] = Some ?s"
    by (simp add: init_state_def useSyncDseBrokerData_def onSuccess_def onError_def error_text_def)
  from C9_keyed_notification_frame [OF r, of "[]"]
  have "keyed ''dse-broker-sync-start'' (registry_after [] (map snd (emitted ?s))) =
       (if list_ex is_accepted [Mutate, Mutate, Settle 0 Accepted, Settle 1 (Failed JUndefined)]
        then Some (Notification (Some ''dse-broker-sync-start'') Loading ''Syncing DSE broker data...'')
        else keyed ''dse-broker-sync-start'' [])"
    by blast
  with r show ?thesis by simp
qed

text \<open>
  Claim C10. The error toast is made without a key, the loading toast with the key
  "dse-broker-sync-start". In the registry every error toast of a sequence of failures is an
  entry of its own, appended after the entries already there, whereas a second loading toast
  replaces the first.
\<close>

theorem C10_error_notification_unkeyed:
  "map toast_id (opt_onError useSyncDseBrokerData error) = [None] \<and>
   registry_after reg (concat (map (opt_onError useSyncDseBrokerData) errors)) =
     reg @ map (\<lambda>e. Notification None Error (error_text e)) errors \<and>
   map toast_id (opt_onSuccess useSyncDseBrokerData) = [Some ''dse-broker-sync-start''] \<and>
   registry_after (registry_after reg (opt_onSuccess useSyncDseBrokerData))
       (opt_onSuccess useSyncDseBrokerData) =
     registry_after reg (opt_onSuccess useSyncDseBrokerData)"
proof -
  have "opt_onError useSyncDseBrokerData = onError"
    and "opt_onSuccess useSyncDseBrokerData = onSuccess"
    by (simp_all add: useSyncDseBrokerData_def)
  moreover have "map toast_id (onError error) = [None]"
    and "map toast_id onSuccess = [Some ''dse-broker-sync-start'']"
    by (simp_all add: onError_def onSuccess_def)
  moreover have "registry_after (registry_after reg onSuccess) onSuccess = registry_after reg onSuccess"
    by (simp add: registry_after_def onSuccess_def upsert_twice)
  ultimately show ?thesis by (simp add: registry_after_errors)
qed

end
